theory Spec2Isabelle
  imports Main "HOL-Library.Char_ord" "HOL-Library.List_Lexorder"
begin

section \<open>Ordered collections (src/utils/collections.js)\<close>

text \<open>
  An ordered collection is an object with two keys, \<open>byId\<close> and \<open>order\<close>. The functions of
  \<open>collections.js\<close> mutate the collection they receive; here each of them takes the
  collection as it is before the call and returns it as it is after the call. A function
  that can throw returns the error (if any) together with the collection as the throw
  leaves it.
\<close>

subsection \<open>JavaScript values\<close>

text \<open>
  The primitive values that occur as properties of an item, as identifiers and as sort
  keys. A number is an integer here (no fractions, no NaN); symbols, booleans and nested
  objects do not occur.
\<close>

datatype jsval = JUndefined | JNull | JNum int | JStr string

text \<open>An item is an object: its own properties. Reading a missing property gives \<open>undefined\<close>.\<close>

type_synonym item = "string \<rightharpoonup> jsval"

definition propOf :: "item \<Rightarrow> string \<Rightarrow> jsval" where
  "propOf it k = (case it k of None \<Rightarrow> JUndefined | Some v \<Rightarrow> v)"

text \<open>
  Decimal digits of a natural number, as \<open>String(n)\<close> prints an integer (of a size that
  JavaScript does not print with an exponent).
\<close>

function decimal :: "nat \<Rightarrow> string" where
  "decimal n = (if n < 10 then [char_of (48 + n)]
                else decimal (n div 10) @ [char_of (48 + n mod 10)])"
  by pat_completeness auto
termination
  by (relation "measure (\<lambda>n. n)") auto

declare decimal.simps [simp del]

text \<open>
  \<open>obj[k]\<close> turns \<open>k\<close> into a property key: a string is its own key, a number is printed,
  \<open>null\<close> and \<open>undefined\<close> become the strings of these names.
\<close>

fun toKey :: "jsval \<Rightarrow> string" where
  "toKey JUndefined = ''undefined''"
| "toKey JNull = ''null''"
| "toKey (JNum n) = (if n < 0 then CHR ''-'' # decimal (nat (- n)) else decimal (nat n))"
| "toKey (JStr s) = s"

text \<open>
  The operator \<open><\<close>. Two strings are compared as sequences of characters; in every other
  case both sides are converted to numbers and the comparison is false when either side
  is NaN. The conversion of a string to a number belongs to the language, not to this
  program: it is the parameter \<open>str2num\<close> (\<open>None\<close> is NaN).
\<close>

fun toNumber :: "(string \<Rightarrow> int option) \<Rightarrow> jsval \<Rightarrow> int option" where
  "toNumber str2num JUndefined = None"
| "toNumber str2num JNull = Some 0"
| "toNumber str2num (JNum n) = Some n"
| "toNumber str2num (JStr s) = str2num s"

fun js_lt :: "(string \<Rightarrow> int option) \<Rightarrow> jsval \<Rightarrow> jsval \<Rightarrow> bool" where
  "js_lt str2num (JStr a) (JStr b) = (a < b)"
| "js_lt str2num x y =
     (case toNumber str2num x of None \<Rightarrow> False
      | Some a \<Rightarrow> (case toNumber str2num y of None \<Rightarrow> False | Some b \<Rightarrow> a < b))"

text \<open>The operator \<open><=\<close>, with the same conversions.\<close>

fun js_le :: "(string \<Rightarrow> int option) \<Rightarrow> jsval \<Rightarrow> jsval \<Rightarrow> bool" where
  "js_le str2num (JStr a) (JStr b) = (a \<le> b)"
| "js_le str2num x y =
     (case toNumber str2num x of None \<Rightarrow> False
      | Some a \<Rightarrow> (case toNumber str2num y of None \<Rightarrow> False | Some b \<Rightarrow> a \<le> b))"

subsection \<open>The collection\<close>

record collection =
  byId :: "string \<rightharpoonup> item"
  order :: "jsval list"

definition NEW_ITEM_ID :: string where
  "NEW_ITEM_ID = ''@@newItem''"

text \<open>
  The two errors thrown by the insertion path: \<open>MissingIdentity\<close> is
  \<open>Error('New item needs either an ID or a name')\<close>, \<open>DuplicateIdentifier\<close> is
  \<open>Error('An item with the same ID already exists')\<close>.
\<close>

datatype error = MissingIdentity | DuplicateIdentifier

definition hasValidId :: "item \<Rightarrow> bool" where
  "hasValidId it \<longleftrightarrow>
     propOf it ''id'' \<noteq> JUndefined \<and> propOf it ''id'' \<noteq> JNull \<and>
     propOf it ''id'' \<noteq> JStr [] \<and> propOf it ''id'' \<noteq> JStr NEW_ITEM_ID"

text \<open>
  lodash \<open>has(object, key)\<close>: the object has the key as an own property. An identifier is
  one key here and in \<open>omit\<close> below: lodash reads a key with dots or brackets as a path
  when the object has no such own key, and identifiers do not contain dots (\<open>getKey\<close>
  refuses them).
\<close>

definition has :: "(string \<rightharpoonup> item) \<Rightarrow> jsval \<Rightarrow> bool" where
  "has obj k = (case obj (toKey k) of None \<Rightarrow> False | Some v \<Rightarrow> True)"

text \<open>
  The sink of \<open>createNewItemInFrontOf\<close>: a callback (modelled by the list of arguments it
  has been called with), a plain object, or anything else.
\<close>

datatype idstore = Callback "string list" | PlainObject item | NoStore

fun storeId :: "idstore \<Rightarrow> string \<Rightarrow> idstore" where
  "storeId (Callback calls) i = Callback (calls @ [i])"
| "storeId (PlainObject obj) i = PlainObject (obj(''id'' \<mapsto> JStr i))"
| "storeId NoStore i = NoStore"

text \<open>
  \<open>chooseUniqueIdFromName\<close> lives in \<open>./naming\<close>, which is not among the sources: it is the
  parameter \<open>naming\<close>, called with the item's name and the collection, returning the
  identifier string.
\<close>

type_synonym naming = "jsval \<Rightarrow> collection \<Rightarrow> string"

definition ensureItemHasValidId :: "naming \<Rightarrow> collection \<Rightarrow> item \<Rightarrow> error + item" where
  "ensureItemHasValidId naming c it =
     (if \<not> hasValidId it then
        (if propOf it ''name'' = JUndefined then Inl MissingIdentity
         else Inr (it(''id'' \<mapsto> JStr (naming (propOf it ''name'') c))))
      else if has (byId c) (propOf it ''id'') then Inl DuplicateIdentifier
      else Inr it)"

text \<open>\<open>array.splice(index, 0, x)\<close> for \<open>0 \<le> index < array.length\<close>, and the three cases of \<open>addItemAt\<close>.\<close>

definition place :: "jsval list \<Rightarrow> int \<Rightarrow> jsval \<Rightarrow> jsval list" where
  "place ord index i =
     (if index < 0 then i # ord
      else if index \<ge> int (length ord) then ord @ [i]
      else take (nat index) ord @ i # drop (nat index) ord)"

definition addItemAt :: "naming \<Rightarrow> collection \<Rightarrow> item \<Rightarrow> int \<Rightarrow> error option \<times> collection" where
  "addItemAt naming c it index =
     (let isNew = (propOf it ''id'' = JStr NEW_ITEM_ID) in
      case ensureItemHasValidId naming c it of
        Inl e \<Rightarrow> (Some e, c)
      | Inr it' \<Rightarrow>
          (let c1 = c\<lparr>byId := (byId c)(toKey (propOf it' ''id'') \<mapsto> it')\<rparr>;
               c2 = c1\<lparr>order := place (order c1) index (propOf it' ''id'')\<rparr>;
               c3 = (if isNew then c2\<lparr>byId := (byId c2)(NEW_ITEM_ID := None)\<rparr> else c2)
           in (None, c3)))"

subsection \<open>lodash sortedIndex and sortedIndexBy\<close>

text \<open>
  The binary search of lodash's \<open>baseSortedIndex\<close> and \<open>baseSortedIndexBy\<close>: \<open>setLow\<close> decides
  from the element in the middle whether the search continues to its right.
\<close>

function sortedIndexLoop :: "(jsval \<Rightarrow> bool) \<Rightarrow> jsval list \<Rightarrow> nat \<Rightarrow> nat \<Rightarrow> nat" where
  "sortedIndexLoop setLow array low high =
     (if low < high then
        (let mid = (low + high) div 2 in
         if setLow (array ! mid) then sortedIndexLoop setLow array (mid + 1) high
         else sortedIndexLoop setLow array low mid)
      else high)"
  by pat_completeness auto
termination
  by (relation "measure (\<lambda>(setLow, array, low, high). high - low)") auto

declare sortedIndexLoop.simps [simp del]

definition MAX_ARRAY_INDEX :: nat where
  "MAX_ARRAY_INDEX = 4294967294"

definition HALF_MAX_ARRAY_LENGTH :: nat where
  "HALF_MAX_ARRAY_LENGTH = 2147483647"

text \<open>
  \<open>setLow\<close> of \<open>baseSortedIndexBy\<close> for the lowest insertion point (\<open>retHighest\<close> false), where
  \<open>computed\<close> is the iteratee at the middle element: an \<open>undefined\<close> value goes after
  everything defined, a \<open>null\<close> value after everything that is neither \<open>null\<close> nor
  \<open>undefined\<close>, and any other value is compared with \<open><\<close>, except that a \<open>null\<close> in the
  array never sends the search to the right.
\<close>

definition setLowBy :: "(string \<Rightarrow> int option) \<Rightarrow> jsval \<Rightarrow> jsval \<Rightarrow> bool" where
  "setLowBy str2num v computed =
     (if v = JUndefined then computed \<noteq> JUndefined
      else if v = JNull then computed \<noteq> JUndefined \<and> computed \<noteq> JNull
      else if computed = JNull then False
      else js_lt str2num computed v)"

definition baseSortedIndexBy ::
  "(string \<Rightarrow> int option) \<Rightarrow> jsval list \<Rightarrow> jsval \<Rightarrow> (jsval \<Rightarrow> jsval) \<Rightarrow> nat" where
  "baseSortedIndexBy str2num array v iteratee =
     (if length array = 0 then 0
      else min (sortedIndexLoop (\<lambda>x. setLowBy str2num (iteratee v) (iteratee x))
                  array 0 (length array))
               MAX_ARRAY_INDEX)"

definition sortedIndexBy ::
  "(string \<Rightarrow> int option) \<Rightarrow> jsval list \<Rightarrow> jsval \<Rightarrow> (jsval \<Rightarrow> jsval) \<Rightarrow> nat" where
  "sortedIndexBy str2num array v iteratee = baseSortedIndexBy str2num array v iteratee"

definition is_number :: "jsval \<Rightarrow> bool" where
  "is_number v = (case v of JNum n \<Rightarrow> True | _ \<Rightarrow> False)"

definition sortedIndex :: "(string \<Rightarrow> int option) \<Rightarrow> jsval list \<Rightarrow> jsval \<Rightarrow> nat" where
  "sortedIndex str2num array v =
     (if is_number v \<and> length array \<le> HALF_MAX_ARRAY_LENGTH then
        sortedIndexLoop (\<lambda>computed. computed \<noteq> JNull \<and> js_lt str2num computed v)
          array 0 (length array)
      else baseSortedIndexBy str2num array v (\<lambda>x. x))"

subsection \<open>Insertion\<close>

text \<open>
  The sorting key of \<open>addItemSorted\<close>: the name of a property (of the item itself, not a
  path into it), read with lodash \<open>property\<close>, or a function from an item to the value
  that is compared.
\<close>

datatype sortkey = KeyName string | KeyFn "item \<Rightarrow> jsval"

fun getter :: "sortkey \<Rightarrow> item \<Rightarrow> jsval" where
  "getter (KeyName k) it = propOf it k"
| "getter (KeyFn f) it = f it"

text \<open>The test \<open>key === 'id'\<close>.\<close>

fun isIdKey :: "sortkey \<Rightarrow> bool" where
  "isIdKey (KeyName k) = (k = ''id'')"
| "isIdKey (KeyFn f) = False"

text \<open>
  The iteratee that \<open>addItemSorted\<close> gives to \<open>sortedIndexBy\<close>: the key of the entity stored
  under the identifier, and the key of the incoming item when there is no such entity.
\<close>

definition keyAt :: "collection \<Rightarrow> sortkey \<Rightarrow> item \<Rightarrow> jsval \<Rightarrow> jsval" where
  "keyAt c key it i =
     (case byId c (toKey i) of
        None \<Rightarrow> getter key it
      | Some existingItem \<Rightarrow> getter key existingItem)"

definition addItemSorted ::
  "(string \<Rightarrow> int option) \<Rightarrow> naming \<Rightarrow> collection \<Rightarrow> item \<Rightarrow> sortkey
     \<Rightarrow> error option \<times> collection" where
  "addItemSorted str2num naming c it key =
     (let index =
        (if isIdKey key then sortedIndex str2num (order c) (propOf it ''id'')
         else sortedIndexBy str2num (order c) (propOf it ''id'') (keyAt c key it))
      in addItemAt naming c it (int index))"

definition addItemToBack :: "naming \<Rightarrow> collection \<Rightarrow> item \<Rightarrow> error option \<times> collection" where
  "addItemToBack naming c it = addItemAt naming c it (int (length (order c)))"

definition addItemToFront :: "naming \<Rightarrow> collection \<Rightarrow> item \<Rightarrow> error option \<times> collection" where
  "addItemToFront naming c it = addItemAt naming c it 0"

definition clearOrderedCollection :: "collection \<Rightarrow> collection" where
  "clearOrderedCollection c = c\<lparr>byId := Map.empty, order := []\<rparr>"

definition createNewItemInFrontOf :: "collection \<Rightarrow> idstore \<Rightarrow> collection \<times> idstore" where
  "createNewItemInFrontOf c idStore =
     (c\<lparr>byId := (byId c)(NEW_ITEM_ID \<mapsto> [''id'' \<mapsto> JStr NEW_ITEM_ID])\<rparr>,
      storeId idStore NEW_ITEM_ID)"

subsection \<open>Deletion\<close>








subsection \<open>Queries\<close>

text \<open>
  The selectors take \<open>{ byId, order }\<close> apart, and \<open>order\<close> may be \<open>undefined\<close> (\<open>None\<close>). A
  result \<open>None\<close> is \<open>undefined\<close>. \<open>Object.values\<close>, which \<open>selectOrdered\<close> uses when there is
  no order, enumerates the object in the order the language keeps for it; it is the
  parameter \<open>objectValues\<close>.
\<close>

definition selectFirst :: "(string \<rightharpoonup> item) \<Rightarrow> jsval list option \<Rightarrow> item option" where
  "selectFirst byId' order' =
     (case order' of None \<Rightarrow> None
      | Some ord \<Rightarrow> if length ord = 0 then None else byId' (toKey (JNum 0)))"

definition selectLast :: "(string \<rightharpoonup> item) \<Rightarrow> jsval list option \<Rightarrow> item option" where
  "selectLast byId' order' =
     (case order' of None \<Rightarrow> None
      | Some ord \<Rightarrow> if length ord = 0 then None
                    else byId' (toKey (JNum (int (length ord) - 1))))"

definition selectOrdered ::
  "((string \<rightharpoonup> item) \<Rightarrow> item list) \<Rightarrow> (string \<rightharpoonup> item) \<Rightarrow> jsval list option \<Rightarrow> item list" where
  "selectOrdered objectValues byId' order' =
     (case order' of None \<Rightarrow> objectValues byId'
      | Some ord \<Rightarrow> List.map_filter (\<lambda>i. byId' (toKey i)) ord)"

definition reorder :: "collection \<Rightarrow> jsval list \<Rightarrow> collection" where
  "reorder c newOrder = c\<lparr>order := newOrder\<rparr>"

definition replaceItemOrAddSorted ::
  "(string \<Rightarrow> int option) \<Rightarrow> naming \<Rightarrow> collection \<Rightarrow> item \<Rightarrow> sortkey
     \<Rightarrow> error option \<times> collection" where
  "replaceItemOrAddSorted str2num naming c it key =
     (if hasValidId it then (None, c\<lparr>byId := (byId c)(toKey (propOf it ''id'') \<mapsto> it)\<rparr>)
      else addItemSorted str2num naming c it key)"

definition replaceItemOrAddToFront ::
  "naming \<Rightarrow> collection \<Rightarrow> item \<Rightarrow> error option \<times> collection" where
  "replaceItemOrAddToFront naming c it =
     (if hasValidId it then (None, c\<lparr>byId := (byId c)(toKey (propOf it ''id'') \<mapsto> it)\<rparr>)
      else addItemToFront naming c it)"

subsection \<open>Sorted collections\<close>

text \<open>
  The value that the search of \<open>addItemSorted\<close> compares for an identifier: the identifier
  itself when the key is \<open>'id'\<close>, and what the iteratee returns for it otherwise.
\<close>

definition searchKey :: "collection \<Rightarrow> sortkey \<Rightarrow> item \<Rightarrow> jsval \<Rightarrow> jsval" where
  "searchKey c key it i = (if isIdKey key then i else keyAt c key it i)"

text \<open>Values that \<open><\<close> orders linearly: all of them numbers, or all of them strings.\<close>

definition is_string :: "jsval \<Rightarrow> bool" where
  "is_string v = (case v of JStr s \<Rightarrow> True | _ \<Rightarrow> False)"

definition comparable :: "jsval list \<Rightarrow> bool" where
  "comparable vs \<longleftrightarrow> list_all is_number vs \<or> list_all is_string vs"

text \<open>
  The keys of the items of the collection in the sequence that \<open>selectOrdered\<close> returns for
  it. The collection has an \<open>order\<close>, so \<open>Object.values\<close> is not called.
\<close>

definition orderedKeys :: "sortkey \<Rightarrow> collection \<Rightarrow> jsval list" where
  "orderedKeys key c =
     map (getter key) (selectOrdered (\<lambda>obj. []) (byId c) (Some (order c)))"

subsection \<open>The collection of the specification's scenarios\<close>

text \<open>
  \<open>order = ["a","b"]\<close>, \<open>byId = {a: {id:"a", rank:1}, b: {id:"b", rank:3}}\<close>, the item
  \<open>{name:"c", rank:2}\<close>, a naming function that takes the name itself as identifier, and
  a string-to-number conversion that reads no string as a number.
\<close>

definition item_a :: item where
  "item_a = [''id'' \<mapsto> JStr ''a'', ''rank'' \<mapsto> JNum 1]"

definition item_b :: item where
  "item_b = [''id'' \<mapsto> JStr ''b'', ''rank'' \<mapsto> JNum 3]"

definition item_c :: item where
  "item_c = [''name'' \<mapsto> JStr ''c'', ''rank'' \<mapsto> JNum 2]"

definition item_foo :: item where
  "item_foo = [''id'' \<mapsto> JStr NEW_ITEM_ID, ''name'' \<mapsto> JStr ''Foo'']"

text \<open>
  An item with the rank of \<open>b\<close>, an item with a rank above all others, and a collection
  whose \<open>order\<close> holds the identifier \<open>d\<close> of no entity between \<open>a\<close> and \<open>b\<close>.
\<close>

definition item_tie :: item where
  "item_tie = [''id'' \<mapsto> JStr ''c'', ''rank'' \<mapsto> JNum 3]"

definition item_e :: item where
  "item_e = [''id'' \<mapsto> JStr ''e'', ''rank'' \<mapsto> JNum 5]"

definition coll_adb :: collection where
  "coll_adb = \<lparr>byId = [''a'' \<mapsto> item_a, ''b'' \<mapsto> item_b],
                order = [JStr ''a'', JStr ''d'', JStr ''b'']\<rparr>"

definition coll_ab :: collection where
  "coll_ab = \<lparr>byId = [''a'' \<mapsto> item_a, ''b'' \<mapsto> item_b], order = [JStr ''a'', JStr ''b'']\<rparr>"

definition name_as_id :: naming where
  "name_as_id nm c = toKey nm"

definition no_numeric_strings :: "string \<Rightarrow> int option" where
  "no_numeric_strings s = None"

section \<open>Properties\<close>

subsection \<open>Property keys\<close>

lemma has_iff: "has obj k \<longleftrightarrow> obj (toKey k) \<noteq> None"
  by (simp add: has_def split: option.split)

lemma toKey_0: "toKey (JNum 0) = ''0''"
  by code_simp

lemma toKey_1: "toKey (JNum 1) = ''1''"
  by code_simp

lemma decimal_chars:
  "x \<in> set (decimal n) \<Longrightarrow> 48 \<le> (of_char x :: nat) \<and> (of_char x :: nat) < 58"
proof (induction n rule: decimal.induct)
  case (1 n)
  show ?case
  proof (cases "n < 10")
    case True
    with "1.prems" have "x = char_of (48 + n)"
      by (simp add: decimal.simps[of n])
    with True show ?thesis by simp
  next
    case False
    with "1.prems" have "x \<in> set (decimal (n div 10)) \<or> x = char_of (48 + n mod 10)"
      by (auto simp add: decimal.simps[of n])
    then show ?thesis
    proof
      assume "x \<in> set (decimal (n div 10))"
      with "1.IH" False show ?thesis by simp
    next
      assume "x = char_of (48 + n mod 10)"
      moreover have "n mod 10 < 10" by simp
      ultimately show ?thesis by simp
    qed
  qed
qed

lemma decimal_not_new: "decimal n \<noteq> NEW_ITEM_ID"
proof
  assume "decimal n = NEW_ITEM_ID"
  then have "CHR ''@'' \<in> set (decimal n)"
    by (simp add: NEW_ITEM_ID_def)
  from decimal_chars[OF this] show False by simp
qed

text \<open>The key of a valid identifier is never the key of the draft marker.\<close>

lemma toKey_valid_not_new:
  assumes "hasValidId it"
  shows "toKey (propOf it ''id'') \<noteq> NEW_ITEM_ID"
proof (cases "propOf it ''id''")
  case (JNum n)
  show ?thesis
  proof (cases "n < 0")
    case True
    then show ?thesis using JNum by (simp add: NEW_ITEM_ID_def)
  next
    case False
    then show ?thesis using JNum decimal_not_new by simp
  qed
qed (use assms in \<open>auto simp: hasValidId_def NEW_ITEM_ID_def\<close>)

subsection \<open>First and last\<close>

text \<open>
  C1. \<open>selectFirst\<close> and \<open>selectLast\<close> are documented to return the first and the last item of
  the collection. They read \<open>byId[0]\<close> and \<open>byId[order.length - 1]\<close>, the entries of \<open>byId\<close>
  under the keys \<open>"0"\<close> and \<open>"1"\<close> here, not the entries under \<open>order[0]\<close> and under the last
  element of \<open>order\<close>. In the collection with \<open>order = ["a","0"]\<close> and entities under \<open>"a"\<close>
  and \<open>"0"\<close>, \<open>selectFirst\<close> returns the entity of \<open>"0"\<close>, which is the last one, and
  \<open>selectLast\<close> returns \<open>undefined\<close>.
\<close>

theorem selectFirst_selectLast_index_byId:
  "selectFirst [''a'' \<mapsto> [''id'' \<mapsto> JStr ''a''], ''0'' \<mapsto> [''id'' \<mapsto> JStr ''0'']]
       (Some [JStr ''a'', JStr ''0'']) = Some [''id'' \<mapsto> JStr ''0''] \<and>
   selectLast [''a'' \<mapsto> [''id'' \<mapsto> JStr ''a''], ''0'' \<mapsto> [''id'' \<mapsto> JStr ''0'']]
       (Some [JStr ''a'', JStr ''0'']) = None \<and>
   [''a'' \<mapsto> [''id'' \<mapsto> JStr ''a''], ''0'' \<mapsto> [''id'' \<mapsto> JStr ''0'']]
       (toKey ([JStr ''a'', JStr ''0''] ! 0)) = Some [''id'' \<mapsto> JStr ''a''] \<and>
   [''a'' \<mapsto> [''id'' \<mapsto> JStr ''a''], ''0'' \<mapsto> [''id'' \<mapsto> JStr ''0'']]
       (toKey (last [JStr ''a'', JStr ''0''])) = Some [''id'' \<mapsto> JStr ''0'']"
  by (simp add: selectFirst_def selectLast_def toKey_0 toKey_1 del: toKey.simps(3))

subsection \<open>Errors of the insertion path\<close>

text \<open>
  C3. An item whose identifier is valid (not \<open>undefined\<close>, \<open>null\<close>, empty or the draft marker)
  and already a key of \<open>byId\<close> is refused by \<open>addItemAt\<close>, \<open>addItemSorted\<close>, \<open>addItemToFront\<close> and
  \<open>addItemToBack\<close> with the error DuplicateIdentifier, and the collection is as before the
  call; so the entry under the draft marker is as before, too.
\<close>

theorem duplicate_identifier_rejected:
  assumes "hasValidId it" and "byId c (toKey (propOf it ''id'')) \<noteq> None"
  shows "addItemAt naming c it index = (Some DuplicateIdentifier, c) \<and>
         addItemSorted str2num naming c it key = (Some DuplicateIdentifier, c) \<and>
         addItemToFront naming c it = (Some DuplicateIdentifier, c) \<and>
         addItemToBack naming c it = (Some DuplicateIdentifier, c) \<and>
         byId (snd (addItemAt naming c it index)) NEW_ITEM_ID = byId c NEW_ITEM_ID"
proof -
  have "ensureItemHasValidId naming c it = Inl DuplicateIdentifier"
    using assms by (simp add: ensureItemHasValidId_def has_iff)
  then have "addItemAt naming c it j = (Some DuplicateIdentifier, c)" for j
    by (simp add: addItemAt_def)
  then show ?thesis
    by (simp add: addItemSorted_def addItemToFront_def addItemToBack_def)
qed

text \<open>
  The scenario of the specification: a draft is pending in the collection of \<open>a\<close> and \<open>b\<close>,
  and an item with the identifier \<open>a\<close> is inserted.
\<close>

theorem duplicate_identifier_rejected_witness:
  "hasValidId item_a \<and>
   byId (fst (createNewItemInFrontOf coll_ab NoStore)) (toKey (propOf item_a ''id'')) \<noteq> None \<and>
   addItemAt name_as_id (fst (createNewItemInFrontOf coll_ab NoStore)) item_a 0 =
     (Some DuplicateIdentifier, fst (createNewItemInFrontOf coll_ab NoStore)) \<and>
   addItemSorted no_numeric_strings name_as_id
       (fst (createNewItemInFrontOf coll_ab NoStore)) item_a (KeyName ''rank'') =
     (Some DuplicateIdentifier, fst (createNewItemInFrontOf coll_ab NoStore)) \<and>
   byId (fst (createNewItemInFrontOf coll_ab NoStore)) NEW_ITEM_ID =
     Some [''id'' \<mapsto> JStr NEW_ITEM_ID]"
proof -
  have v: "hasValidId item_a"
    by (simp add: hasValidId_def item_a_def propOf_def NEW_ITEM_ID_def)
  have k: "byId (fst (createNewItemInFrontOf coll_ab NoStore)) (toKey (propOf item_a ''id''))
             \<noteq> None"
    by (simp add: createNewItemInFrontOf_def coll_ab_def item_a_def propOf_def NEW_ITEM_ID_def)
  have d: "byId (fst (createNewItemInFrontOf coll_ab NoStore)) NEW_ITEM_ID =
             Some [''id'' \<mapsto> JStr NEW_ITEM_ID]"
    by (simp add: createNewItemInFrontOf_def)
  show ?thesis
    using duplicate_identifier_rejected
      [OF v k, of name_as_id 0 no_numeric_strings "KeyName ''rank''"] v k d
    by simp
qed

text \<open>
  C9. An item without a valid identifier (\<open>undefined\<close>, \<open>null\<close>, empty or the draft marker) and
  without a name (\<open>item.name\<close> is \<open>undefined\<close>) is refused by the four insertion operations
  with the error MissingIdentity, returned to the caller, and the collection is as before
  the call.
\<close>

theorem missing_identity_rejected:
  assumes "\<not> hasValidId it" and "propOf it ''name'' = JUndefined"
  shows "addItemAt naming c it index = (Some MissingIdentity, c) \<and>
         addItemSorted str2num naming c it key = (Some MissingIdentity, c) \<and>
         addItemToFront naming c it = (Some MissingIdentity, c) \<and>
         addItemToBack naming c it = (Some MissingIdentity, c)"
proof -
  have "ensureItemHasValidId naming c it = Inl MissingIdentity"
    using assms by (simp add: ensureItemHasValidId_def)
  then have "addItemAt naming c it j = (Some MissingIdentity, c)" for j
    by (simp add: addItemAt_def)
  then show ?thesis
    by (simp add: addItemSorted_def addItemToFront_def addItemToBack_def)
qed

theorem missing_identity_rejected_witness:
  "\<not> hasValidId [''id'' \<mapsto> JStr NEW_ITEM_ID, ''rank'' \<mapsto> JNum 2] \<and>
   propOf [''id'' \<mapsto> JStr NEW_ITEM_ID, ''rank'' \<mapsto> JNum 2] ''name'' = JUndefined \<and>
   addItemAt name_as_id coll_ab [''id'' \<mapsto> JStr NEW_ITEM_ID, ''rank'' \<mapsto> JNum 2] 1 =
     (Some MissingIdentity, coll_ab) \<and>
   addItemSorted no_numeric_strings name_as_id coll_ab
       [''id'' \<mapsto> JStr NEW_ITEM_ID, ''rank'' \<mapsto> JNum 2] (KeyName ''rank'') =
     (Some MissingIdentity, coll_ab) \<and>
   addItemToFront name_as_id coll_ab [''id'' \<mapsto> JStr NEW_ITEM_ID, ''rank'' \<mapsto> JNum 2] =
     (Some MissingIdentity, coll_ab) \<and>
   addItemToBack name_as_id coll_ab [''id'' \<mapsto> JStr NEW_ITEM_ID, ''rank'' \<mapsto> JNum 2] =
     (Some MissingIdentity, coll_ab)"
proof -
  have v: "\<not> hasValidId [''id'' \<mapsto> JStr NEW_ITEM_ID, ''rank'' \<mapsto> JNum 2]"
    by (simp add: hasValidId_def propOf_def)
  have n: "propOf [''id'' \<mapsto> JStr NEW_ITEM_ID, ''rank'' \<mapsto> JNum 2] ''name'' = JUndefined"
    by (simp add: propOf_def)
  show ?thesis
    using missing_identity_rejected
      [OF v n, of name_as_id coll_ab 1 no_numeric_strings "KeyName ''rank''"] v n
    by simp
qed

subsection \<open>Replacing an item\<close>

text \<open>
  C10. For an item with a valid identifier, \<open>replaceItemOrAddSorted\<close> and
  \<open>replaceItemOrAddToFront\<close> store a copy of the item in \<open>byId\<close> under its identifier and leave
  \<open>order\<close> and every other entry of \<open>byId\<close> as they are, whether or not the identifier was in
  the collection before.
\<close>

theorem replace_valid_item_keeps_order:
  assumes "hasValidId it"
  shows "replaceItemOrAddSorted str2num naming c it key =
           (None, c\<lparr>byId := (byId c)(toKey (propOf it ''id'') \<mapsto> it)\<rparr>) \<and>
         replaceItemOrAddToFront naming c it =
           (None, c\<lparr>byId := (byId c)(toKey (propOf it ''id'') \<mapsto> it)\<rparr>) \<and>
         order (snd (replaceItemOrAddSorted str2num naming c it key)) = order c \<and>
         order (snd (replaceItemOrAddToFront naming c it)) = order c \<and>
         byId (snd (replaceItemOrAddSorted str2num naming c it key))
           (toKey (propOf it ''id'')) = Some it \<and>
         byId (snd (replaceItemOrAddToFront naming c it)) (toKey (propOf it ''id'')) = Some it"
  using assms by (simp add: replaceItemOrAddSorted_def replaceItemOrAddToFront_def)

text \<open>
  The item \<open>{id:"z", rank:2}\<close> is not in the collection of \<open>a\<close> and \<open>b\<close>: afterwards it is in
  \<open>byId\<close> and at no position of \<open>order\<close>.
\<close>

theorem replace_valid_item_keeps_order_witness:
  "hasValidId [''id'' \<mapsto> JStr ''z'', ''rank'' \<mapsto> JNum 2] \<and>
   byId coll_ab ''z'' = None \<and> JStr ''z'' \<notin> set (order coll_ab) \<and>
   order (snd (replaceItemOrAddSorted no_numeric_strings name_as_id coll_ab
                 [''id'' \<mapsto> JStr ''z'', ''rank'' \<mapsto> JNum 2] (KeyName ''rank''))) =
     [JStr ''a'', JStr ''b''] \<and>
   order (snd (replaceItemOrAddToFront name_as_id coll_ab
                 [''id'' \<mapsto> JStr ''z'', ''rank'' \<mapsto> JNum 2])) = [JStr ''a'', JStr ''b''] \<and>
   byId (snd (replaceItemOrAddSorted no_numeric_strings name_as_id coll_ab
                 [''id'' \<mapsto> JStr ''z'', ''rank'' \<mapsto> JNum 2] (KeyName ''rank''))) ''z'' =
     Some [''id'' \<mapsto> JStr ''z'', ''rank'' \<mapsto> JNum 2] \<and>
   byId (snd (replaceItemOrAddToFront name_as_id coll_ab
                 [''id'' \<mapsto> JStr ''z'', ''rank'' \<mapsto> JNum 2])) ''z'' =
     Some [''id'' \<mapsto> JStr ''z'', ''rank'' \<mapsto> JNum 2]"
proof -
  have v: "hasValidId [''id'' \<mapsto> JStr ''z'', ''rank'' \<mapsto> JNum 2]"
    by (simp add: hasValidId_def propOf_def NEW_ITEM_ID_def)
  have k: "toKey (propOf [''id'' \<mapsto> JStr ''z'', ''rank'' \<mapsto> JNum 2] ''id'') = ''z''"
    by (simp add: propOf_def)
  have o: "order coll_ab = [JStr ''a'', JStr ''b'']" and b: "byId coll_ab ''z'' = None"
    by (simp_all add: coll_ab_def)
  show ?thesis
    using replace_valid_item_keeps_order
      [OF v, of no_numeric_strings name_as_id coll_ab "KeyName ''rank''"] v k o b
    by simp
qed

subsection \<open>Positional insertion\<close>

text \<open>What \<open>addItemAt\<close> does to an item that identifier resolution lets through.\<close>

lemma addItemAt_accepted:
  assumes "ensureItemHasValidId naming c it = Inr it'"
  shows "addItemAt naming c it index =
           (None, \<lparr>byId = (if propOf it ''id'' = JStr NEW_ITEM_ID
                            then ((byId c)(toKey (propOf it' ''id'') \<mapsto> it'))(NEW_ITEM_ID := None)
                            else (byId c)(toKey (propOf it' ''id'') \<mapsto> it')),
                    order = place (order c) index (propOf it' ''id'')\<rparr>)"
  using assms by (simp add: addItemAt_def Let_def)

text \<open>
  C8. When identifier resolution accepts the item, leaving it as \<open>it'\<close> with an identifier
  that is not the draft marker, \<open>addItemAt\<close> stores \<open>it'\<close> in \<open>byId\<close> under that identifier and
  puts the identifier at the front of \<open>order\<close> for a negative index, at the back for an
  index that is at least the length of \<open>order\<close>, and at position \<open>index\<close> otherwise, the
  elements from that position on moving one place to the right.
\<close>

theorem addItemAt_clamps_index:
  assumes "ensureItemHasValidId naming c it = Inr it'"
    and "toKey (propOf it' ''id'') \<noteq> NEW_ITEM_ID"
  shows "fst (addItemAt naming c it index) = None \<and>
         byId (snd (addItemAt naming c it index)) (toKey (propOf it' ''id'')) = Some it' \<and>
         (index < 0 \<longrightarrow>
            order (snd (addItemAt naming c it index)) = propOf it' ''id'' # order c) \<and>
         (int (length (order c)) \<le> index \<longrightarrow>
            order (snd (addItemAt naming c it index)) = order c @ [propOf it' ''id'']) \<and>
         (0 \<le> index \<and> index < int (length (order c)) \<longrightarrow>
            order (snd (addItemAt naming c it index)) =
              take (nat index) (order c) @ propOf it' ''id'' # drop (nat index) (order c) \<and>
            order (snd (addItemAt naming c it index)) ! nat index = propOf it' ''id'')"
  using assms by (auto simp add: addItemAt_accepted place_def nth_append)

text \<open>The item \<open>{name:"c", rank:2}\<close> added to \<open>["a","b"]\<close> at the indices -5, 1, 2 and 7.\<close>

theorem addItemAt_clamps_index_witness:
  "ensureItemHasValidId name_as_id coll_ab item_c = Inr (item_c(''id'' \<mapsto> JStr ''c'')) \<and>
   toKey (propOf (item_c(''id'' \<mapsto> JStr ''c'')) ''id'') \<noteq> NEW_ITEM_ID \<and>
   byId (snd (addItemAt name_as_id coll_ab item_c (- 5))) ''c'' = Some (item_c(''id'' \<mapsto> JStr ''c'')) \<and>
   order (snd (addItemAt name_as_id coll_ab item_c (- 5))) = [JStr ''c'', JStr ''a'', JStr ''b''] \<and>
   order (snd (addItemAt name_as_id coll_ab item_c 1)) = [JStr ''a'', JStr ''c'', JStr ''b''] \<and>
   order (snd (addItemAt name_as_id coll_ab item_c 2)) = [JStr ''a'', JStr ''b'', JStr ''c''] \<and>
   order (snd (addItemAt name_as_id coll_ab item_c 7)) = [JStr ''a'', JStr ''b'', JStr ''c'']"
proof -
  have e: "ensureItemHasValidId name_as_id coll_ab item_c = Inr (item_c(''id'' \<mapsto> JStr ''c''))"
    by (simp add: ensureItemHasValidId_def hasValidId_def propOf_def item_c_def name_as_id_def)
  have k: "toKey (propOf (item_c(''id'' \<mapsto> JStr ''c'')) ''id'') \<noteq> NEW_ITEM_ID"
    by (simp add: propOf_def NEW_ITEM_ID_def)
  have p: "propOf (item_c(''id'' \<mapsto> JStr ''c'')) ''id'' = JStr ''c''"
    by (simp add: propOf_def)
  have o: "order coll_ab = [JStr ''a'', JStr ''b'']"
    by (simp add: coll_ab_def)
  show ?thesis
    using addItemAt_clamps_index[OF e k, of "- 5"] addItemAt_clamps_index[OF e k, of 1] addItemAt_clamps_index[OF e k, of 2] addItemAt_clamps_index[OF e k, of 7] e k
    by (simp add: p o)
qed

subsection \<open>The draft item\<close>

lemma count_list_place:
  "x \<notin> set xs \<Longrightarrow> count_list (place xs index x) x = 1"
proof -
  assume a: "x \<notin> set xs"
  then have 0: "count_list xs x = 0" by (simp add: count_list_0_iff)
  have "x \<notin> set (take n xs)" "x \<notin> set (drop n xs)" for n
    using a in_set_takeD in_set_dropD by fast+
  then have "count_list (take n xs) x = 0" "count_list (drop n xs) x = 0" for n
    by (simp_all add: count_list_0_iff)
  with 0 show ?thesis by (simp add: place_def)
qed

text \<open>
  C7. In a collection whose \<open>order\<close> does not hold the draft marker,
  \<open>createNewItemInFrontOf\<close> puts \<open>{id: draft marker}\<close> in \<open>byId\<close> under the draft marker and
  leaves \<open>order\<close> without it. Promotion is an insertion of an item whose \<open>id\<close> is the draft
  marker and that has a name; the identifier is the one \<open>chooseUniqueIdFromName\<close> derives
  from the name, which is taken to be what that function is specified to return: not
  the draft marker and not yet in \<open>order\<close>. After the insertion (by any of the four
  operations) \<open>byId\<close> has no entry under the draft marker, has the item under the derived
  identifier, and \<open>order\<close> holds the derived identifier exactly once.
\<close>

theorem draft_lifecycle:
  assumes "JStr NEW_ITEM_ID \<notin> set (order c)"
    and "propOf it ''id'' = JStr NEW_ITEM_ID"
    and "propOf it ''name'' \<noteq> JUndefined"
    and "naming (propOf it ''name'') (fst (createNewItemInFrontOf c idStore)) \<noteq> NEW_ITEM_ID"
    and "JStr (naming (propOf it ''name'') (fst (createNewItemInFrontOf c idStore)))
           \<notin> set (order c)"
  shows "byId (fst (createNewItemInFrontOf c idStore)) NEW_ITEM_ID
           = Some [''id'' \<mapsto> JStr NEW_ITEM_ID] \<and>
         JStr NEW_ITEM_ID \<notin> set (order (fst (createNewItemInFrontOf c idStore))) \<and>
         (\<forall>r \<in> {addItemAt naming (fst (createNewItemInFrontOf c idStore)) it index,
                 addItemSorted str2num naming (fst (createNewItemInFrontOf c idStore)) it key,
                 addItemToFront naming (fst (createNewItemInFrontOf c idStore)) it,
                 addItemToBack naming (fst (createNewItemInFrontOf c idStore)) it}.
            fst r = None \<and>
            byId (snd r) NEW_ITEM_ID = None \<and>
            byId (snd r) (naming (propOf it ''name'') (fst (createNewItemInFrontOf c idStore)))
              = Some (it(''id'' \<mapsto>
                   JStr (naming (propOf it ''name'') (fst (createNewItemInFrontOf c idStore))))) \<and>
            count_list (order (snd r))
              (JStr (naming (propOf it ''name'') (fst (createNewItemInFrontOf c idStore)))) = 1)"
proof -
  let ?c1 = "fst (createNewItemInFrontOf c idStore)"
  let ?d = "naming (propOf it ''name'') ?c1"
  have o1: "order ?c1 = order c" by (simp add: createNewItemInFrontOf_def)
  have nv: "\<not> hasValidId it" using assms(2) by (simp add: hasValidId_def)
  have e: "ensureItemHasValidId naming ?c1 it = Inr (it(''id'' \<mapsto> JStr ?d))"
    using nv assms(3) by (simp add: ensureItemHasValidId_def)
  have p: "propOf (it(''id'' \<mapsto> JStr ?d)) ''id'' = JStr ?d" by (simp add: propOf_def)
  have at: "fst (addItemAt naming ?c1 it j) = None \<and>
            byId (snd (addItemAt naming ?c1 it j)) NEW_ITEM_ID = None \<and>
            byId (snd (addItemAt naming ?c1 it j)) ?d = Some (it(''id'' \<mapsto> JStr ?d)) \<and>
            count_list (order (snd (addItemAt naming ?c1 it j))) (JStr ?d) = 1" for j
    using assms(2,4,5) count_list_place[of "JStr ?d" "order c" j]
    by (simp add: addItemAt_accepted[OF e] p o1)
  show ?thesis
    using at by (simp add: createNewItemInFrontOf_def addItemSorted_def addItemToFront_def
        addItemToBack_def assms(1))
qed

text \<open>A draft in the collection of \<open>a\<close> and \<open>b\<close>, promoted with the name \<open>Foo\<close>.\<close>

theorem draft_lifecycle_witness:
  "JStr NEW_ITEM_ID \<notin> set (order coll_ab) \<and>
   propOf item_foo ''id'' = JStr NEW_ITEM_ID \<and>
   propOf item_foo ''name'' \<noteq> JUndefined \<and>
   name_as_id (propOf item_foo ''name'') (fst (createNewItemInFrontOf coll_ab NoStore)) = ''Foo'' \<and>
   ''Foo'' \<noteq> NEW_ITEM_ID \<and> JStr ''Foo'' \<notin> set (order coll_ab) \<and>
   byId (fst (createNewItemInFrontOf coll_ab NoStore)) NEW_ITEM_ID
       = Some [''id'' \<mapsto> JStr NEW_ITEM_ID] \<and>
   JStr NEW_ITEM_ID \<notin> set (order (fst (createNewItemInFrontOf coll_ab NoStore))) \<and>
   fst (addItemToFront name_as_id (fst (createNewItemInFrontOf coll_ab NoStore)) item_foo) = None \<and>
   byId (snd (addItemToFront name_as_id (fst (createNewItemInFrontOf coll_ab NoStore)) item_foo))
       NEW_ITEM_ID = None \<and>
   byId (snd (addItemToFront name_as_id (fst (createNewItemInFrontOf coll_ab NoStore)) item_foo))
       ''Foo'' = Some (item_foo(''id'' \<mapsto> JStr ''Foo'')) \<and>
   count_list
     (order (snd (addItemToFront name_as_id (fst (createNewItemInFrontOf coll_ab NoStore)) item_foo)))
     (JStr ''Foo'') = 1"
proof -
  have n: "name_as_id (propOf item_foo ''name'') (fst (createNewItemInFrontOf coll_ab NoStore)) = ''Foo''"
    by (simp add: name_as_id_def propOf_def item_foo_def)
  have h1: "JStr NEW_ITEM_ID \<notin> set (order coll_ab)"
    by (simp add: coll_ab_def NEW_ITEM_ID_def)
  have h2: "propOf item_foo ''id'' = JStr NEW_ITEM_ID"
    by (simp add: propOf_def item_foo_def)
  have h3: "propOf item_foo ''name'' \<noteq> JUndefined"
    by (simp add: propOf_def item_foo_def)
  have h4: "name_as_id (propOf item_foo ''name'') (fst (createNewItemInFrontOf coll_ab NoStore))
              \<noteq> NEW_ITEM_ID"
    by (simp add: n NEW_ITEM_ID_def)
  have h5: "JStr (name_as_id (propOf item_foo ''name'') (fst (createNewItemInFrontOf coll_ab NoStore)))
              \<notin> set (order coll_ab)"
    unfolding n by (simp add: coll_ab_def)
  show ?thesis
    using draft_lifecycle[where c = coll_ab and it = item_foo and naming = name_as_id and idStore = NoStore
        and index = 0 and ?str2num = no_numeric_strings and key = "KeyName ''rank''",
        OF h1 h2 h3 h4 h5] h1 h2 h3 h4 h5
    by (simp add: n)
qed

subsection \<open>Deletion\<close>














subsection \<open>The binary search\<close>

text \<open>
  The search applies \<open>setLow\<close> to elements of the array only; when \<open>setLow\<close> holds on a
  prefix of the array and nowhere else, the search returns the length of that prefix.
\<close>

lemma sortedIndexLoop_cong:
  assumes "\<forall>x\<in>set array. f x = g x" and "high \<le> length array"
  shows "sortedIndexLoop f array low high = sortedIndexLoop g array low high"
  using assms
proof (induction f array low high rule: sortedIndexLoop.induct)
  case (1 setLow array low high)
  show ?case
  proof (cases "low < high")
    case False
    then show ?thesis
      by (simp add: sortedIndexLoop.simps[of _ array low high])
  next
    case True
    let ?mid = "(low + high) div 2"
    from True "1.prems"(2) have m: "?mid < length array" "?mid \<le> length array" by auto
    then have e: "setLow (array ! ?mid) = g (array ! ?mid)"
      using "1.prems"(1) by simp
    show ?thesis
    proof (cases "setLow (array ! ?mid)")
      case True
      from "1.IH"(1)[OF \<open>low < high\<close> refl True "1.prems"]
      show ?thesis using True e \<open>low < high\<close>
        by (simp add: sortedIndexLoop.simps[of _ array low high])
    next
      case False
      from "1.IH"(2)[OF \<open>low < high\<close> refl False "1.prems"(1) m(2)]
      show ?thesis using False e \<open>low < high\<close>
        by (simp add: sortedIndexLoop.simps[of _ array low high])
    qed
  qed
qed

lemma sortedIndexLoop_boundary:
  assumes "\<forall>i j. i \<le> j \<and> j < length array \<and> P (array ! j) \<longrightarrow> P (array ! i)"
    and "low \<le> high" and "high \<le> length array"
    and "\<forall>j<low. P (array ! j)"
    and "\<forall>j. high \<le> j \<and> j < length array \<longrightarrow> \<not> P (array ! j)"
  shows "low \<le> sortedIndexLoop P array low high \<and>
         sortedIndexLoop P array low high \<le> high \<and>
         (\<forall>j<sortedIndexLoop P array low high. P (array ! j)) \<and>
         (\<forall>j. sortedIndexLoop P array low high \<le> j \<and> j < length array \<longrightarrow> \<not> P (array ! j))"
  using assms
proof (induction P array low high rule: sortedIndexLoop.induct)
  case (1 P array low high)
  show ?case
  proof (cases "low < high")
    case False
    then have r: "sortedIndexLoop P array low high = high"
      by (simp add: sortedIndexLoop.simps[of P array low high])
    from False "1.prems" show ?thesis
      unfolding r by simp
  next
    case lh: True
    let ?mid = "(low + high) div 2"
    from lh "1.prems"(3) have m: "low \<le> ?mid" "?mid < high" "?mid < length array" by auto
    show ?thesis
    proof (cases "P (array ! ?mid)")
      case True
      have below: "\<forall>j<?mid + 1. P (array ! j)"
      proof (intro allI impI)
        fix j assume "j < ?mid + 1"
        then have "j \<le> ?mid" by simp
        with "1.prems"(1) m(3) True show "P (array ! j)" by blast
      qed
      from m have le: "?mid + 1 \<le> high" by simp
      have r: "sortedIndexLoop P array low high = sortedIndexLoop P array (?mid + 1) high"
        using True lh by (simp add: sortedIndexLoop.simps[of P array low high])
      from "1.IH"(1)[OF lh refl True "1.prems"(1) le "1.prems"(3) below "1.prems"(5)]
      show ?thesis unfolding r using m by simp
    next
      case False
      have above: "\<forall>j. ?mid \<le> j \<and> j < length array \<longrightarrow> \<not> P (array ! j)"
        using "1.prems"(1) False by blast
      from m have le: "?mid \<le> length array" by simp
      have r: "sortedIndexLoop P array low high = sortedIndexLoop P array low ?mid"
        using False lh by (simp add: sortedIndexLoop.simps[of P array low high])
      from "1.IH"(2)[OF lh refl False "1.prems"(1) m(1) le "1.prems"(4) above]
      show ?thesis unfolding r using m by simp
    qed
  qed
qed


lemma sortedIndexLoop_range:
  "low \<le> high \<Longrightarrow>
     low \<le> sortedIndexLoop P array low high \<and> sortedIndexLoop P array low high \<le> high"
proof (induction P array low high rule: sortedIndexLoop.induct)
  case (1 P array low high)
  show ?case
  proof (cases "low < high")
    case False
    then have r: "sortedIndexLoop P array low high = high"
      by (simp add: sortedIndexLoop.simps[of P array low high])
    from "1.prems" show ?thesis unfolding r by simp
  next
    case lh: True
    let ?mid = "(low + high) div 2"
    from lh have m: "low \<le> ?mid" "?mid + 1 \<le> high" by auto
    show ?thesis
    proof (cases "P (array ! ?mid)")
      case True
      have r: "sortedIndexLoop P array low high = sortedIndexLoop P array (?mid + 1) high"
        using True lh by (simp add: sortedIndexLoop.simps[of P array low high])
      from "1.IH"(1)[OF lh refl True m(2)] show ?thesis unfolding r using m by simp
    next
      case False
      have r: "sortedIndexLoop P array low high = sortedIndexLoop P array low ?mid"
        using False lh by (simp add: sortedIndexLoop.simps[of P array low high])
      from "1.IH"(2)[OF lh refl False m(1)] show ?thesis unfolding r using m by simp
    qed
  qed
qed

lemma comparable_kinds:
  assumes "comparable vs" and "a \<in> set vs" and "b \<in> set vs"
  shows "(\<exists>x y. a = JNum x \<and> b = JNum y) \<or> (\<exists>s t. a = JStr s \<and> b = JStr t)"
proof -
  have n: "is_number x \<longleftrightarrow> (\<exists>k. x = JNum k)" for x
    by (cases x) (simp_all add: is_number_def)
  have t: "is_string x \<longleftrightarrow> (\<exists>k. x = JStr k)" for x
    by (cases x) (simp_all add: is_string_def)
  from assms show ?thesis
    unfolding comparable_def list_all_iff n t by blast
qed

lemma comparable_le_iff:
  assumes "comparable vs" and "a \<in> set vs" and "b \<in> set vs"
  shows "js_le str2num a b \<longleftrightarrow> \<not> js_lt str2num b a"
  using comparable_kinds[OF assms] by auto

lemma comparable_le_lt_trans:
  assumes "comparable vs" and "a \<in> set vs" and "b \<in> set vs" and "c \<in> set vs"
    and "js_le str2num a b" and "js_lt str2num b c"
  shows "js_lt str2num a c"
  using comparable_kinds[OF assms(1,2,3)] comparable_kinds[OF assms(1,3,4)] assms(5,6)
  by auto

lemma comparable_lt_le:
  assumes "comparable vs" and "a \<in> set vs" and "b \<in> set vs" and "js_lt str2num a b"
  shows "js_le str2num a b"
  using comparable_kinds[OF assms(1,2,3)] assms(4) by auto

lemma comparable_setLowBy:
  assumes "comparable vs" and "v \<in> set vs" and "x \<in> set vs"
  shows "setLowBy str2num v x = js_lt str2num x v"
  using comparable_kinds[OF assms] by (auto simp: setLowBy_def)

lemma comparable_not_null:
  assumes "comparable vs" and "x \<in> set vs"
  shows "x \<noteq> JNull"
  using comparable_kinds[OF assms assms(2)] by auto

lemma insertion_point:
  assumes cmp: "comparable (v # map sk xs)"
    and srt: "sorted_wrt (js_le str2num) (map sk xs)"
  shows "sortedIndexLoop (\<lambda>x. js_lt str2num (sk x) v) xs 0 (length xs) \<le> length xs \<and>
         (\<forall>x\<in>set (take (sortedIndexLoop (\<lambda>x. js_lt str2num (sk x) v) xs 0 (length xs)) xs).
            js_lt str2num (sk x) v) \<and>
         (\<forall>x\<in>set (drop (sortedIndexLoop (\<lambda>x. js_lt str2num (sk x) v) xs 0 (length xs)) xs).
            js_le str2num v (sk x))"
proof -
  let ?P = "\<lambda>x. js_lt str2num (sk x) v"
  define n where "n = sortedIndexLoop ?P xs 0 (length xs)"
  have mem: "sk (xs ! j) \<in> set (v # map sk xs)" if "j < length xs" for j
    using that by simp
  have vmem: "v \<in> set (v # map sk xs)" by simp
  have mono: "\<forall>i j. i \<le> j \<and> j < length xs \<and> ?P (xs ! j) \<longrightarrow> ?P (xs ! i)"
  proof (intro allI impI)
    fix i j assume a: "i \<le> j \<and> j < length xs \<and> ?P (xs ! j)"
    show "?P (xs ! i)"
    proof (cases "i = j")
      case True
      with a show ?thesis by simp
    next
      case False
      with a have ij: "i < j" "j < length (map sk xs)" by simp_all
      have "js_le str2num (map sk xs ! i) (map sk xs ! j)"
        by (rule sorted_wrt_nth_less[OF srt ij])
      then have le: "js_le str2num (sk (xs ! i)) (sk (xs ! j))" using ij by simp
      have lt: "js_lt str2num (sk (xs ! j)) v" using a by simp
      have "i < length xs" "j < length xs" using ij by simp_all
      from comparable_le_lt_trans[OF cmp mem[OF this(1)] mem[OF this(2)] vmem le lt]
      show ?thesis .
    qed
  qed
  have z: "\<forall>j<(0::nat). ?P (xs ! j)" by simp
  have h: "\<forall>j. length xs \<le> j \<and> j < length xs \<longrightarrow> \<not> ?P (xs ! j)" by auto
  have b: "0 \<le> n \<and> n \<le> length xs \<and> (\<forall>j<n. ?P (xs ! j)) \<and>
           (\<forall>j. n \<le> j \<and> j < length xs \<longrightarrow> \<not> ?P (xs ! j))"
    unfolding n_def
    by (rule sortedIndexLoop_boundary[OF mono _ _ z h]) simp_all
  have t: "\<forall>x\<in>set (take n xs). ?P x"
  proof
    fix x assume "x \<in> set (take n xs)"
    then obtain j where j: "j < length (take n xs)" "take n xs ! j = x"
      unfolding in_set_conv_nth by blast
    then have "j < n" "x = xs ! j" by simp_all
    with b show "?P x" by blast
  qed
  have d: "\<forall>x\<in>set (drop n xs). js_le str2num v (sk x)"
  proof
    fix x assume "x \<in> set (drop n xs)"
    then obtain j where j: "j < length (drop n xs)" "drop n xs ! j = x"
      unfolding in_set_conv_nth by blast
    then have x: "x = xs ! (n + j)" "n + j < length xs" using b by auto
    have "n \<le> n + j" by simp
    with b x have np: "\<not> js_lt str2num (sk x) v" by blast
    have "sk x \<in> set (v # map sk xs)" using x mem by blast
    from comparable_le_iff[OF cmp vmem this, of str2num] np
    show "js_le str2num v (sk x)" by blast
  qed
  from b t d show ?thesis unfolding n_def by blast
qed

lemma sortedIndexLoop_empty: "sortedIndexLoop P [] 0 0 = 0"
  by (simp add: sortedIndexLoop.simps[of P "[]" 0 0])

lemma sortedIndexBy_comparable:
  assumes cmp: "comparable (iteratee v # map iteratee xs)"
    and len: "length xs \<le> MAX_ARRAY_INDEX"
  shows "sortedIndexBy str2num xs v iteratee =
           sortedIndexLoop (\<lambda>x. js_lt str2num (iteratee x) (iteratee v)) xs 0 (length xs)"
proof (cases "xs = []")
  case True
  then show ?thesis
    by (simp add: sortedIndexBy_def baseSortedIndexBy_def sortedIndexLoop_empty)
next
  case False
  have "\<forall>x\<in>set xs. setLowBy str2num (iteratee v) (iteratee x) = js_lt str2num (iteratee x) (iteratee v)"
    using comparable_setLowBy[OF cmp, of "iteratee v" _ str2num] by simp
  from sortedIndexLoop_cong[OF this, of "length xs" 0]
  have e: "sortedIndexLoop (\<lambda>x. setLowBy str2num (iteratee v) (iteratee x)) xs 0 (length xs) =
           sortedIndexLoop (\<lambda>x. js_lt str2num (iteratee x) (iteratee v)) xs 0 (length xs)"
    by simp
  have "sortedIndexLoop (\<lambda>x. js_lt str2num (iteratee x) (iteratee v)) xs 0 (length xs) \<le> length xs"
    using sortedIndexLoop_range[of 0 "length xs"] by simp
  with len e False show ?thesis
    by (simp add: sortedIndexBy_def baseSortedIndexBy_def)
qed

lemma sortedIndex_comparable:
  assumes cmp: "comparable (v # xs)" and len: "length xs \<le> MAX_ARRAY_INDEX"
  shows "sortedIndex str2num xs v = sortedIndexLoop (\<lambda>x. js_lt str2num x v) xs 0 (length xs)"
proof (cases "is_number v \<and> length xs \<le> HALF_MAX_ARRAY_LENGTH")
  case True
  have "\<forall>x\<in>set xs. (x \<noteq> JNull \<and> js_lt str2num x v) = js_lt str2num x v"
    using comparable_not_null[OF cmp] by simp
  from sortedIndexLoop_cong[OF this, of "length xs" 0] True show ?thesis
    by (simp add: sortedIndex_def)
next
  case False
  have "comparable ((\<lambda>x. x) v # map (\<lambda>x. x) xs)" using cmp by simp
  from False have "sortedIndex str2num xs v = sortedIndexBy str2num xs v (\<lambda>x. x)"
    by (auto simp add: sortedIndex_def sortedIndexBy_def)
  with sortedIndexBy_comparable[OF \<open>comparable ((\<lambda>x. x) v # map (\<lambda>x. x) xs)\<close> len, of str2num]
  show ?thesis by simp
qed

lemma addItemSorted_index:
  assumes cmp: "comparable (searchKey c key it (propOf it ''id'') #
                            map (searchKey c key it) (order c))"
    and len: "length (order c) \<le> MAX_ARRAY_INDEX"
  shows "addItemSorted str2num naming c it key =
           addItemAt naming c it
             (int (sortedIndexLoop
                     (\<lambda>x. js_lt str2num (searchKey c key it x) (searchKey c key it (propOf it ''id'')))
                     (order c) 0 (length (order c))))"
proof (cases "isIdKey key")
  case True
  then have s: "searchKey c key it = (\<lambda>x. x)" by (simp add: searchKey_def fun_eq_iff)
  from cmp have "comparable (propOf it ''id'' # order c)" by (simp add: s)
  from sortedIndex_comparable[OF this len, of str2num] True show ?thesis
    by (simp add: addItemSorted_def s)
next
  case False
  then have s: "searchKey c key it = keyAt c key it" by (simp add: searchKey_def fun_eq_iff)
  from cmp have "comparable (keyAt c key it (propOf it ''id'') # map (keyAt c key it) (order c))"
    by (simp add: s)
  from sortedIndexBy_comparable[OF this len, of str2num] False show ?thesis
    by (simp add: addItemSorted_def s)
qed

subsection \<open>Sorted insertion\<close>

text \<open>
  When the values that the search compares are all numbers or all strings, and sorted,
  \<open>addItemSorted\<close> hands \<open>addItemAt\<close> the index that separates the values below the value of
  the new item from the others.
\<close>

lemma place_nat:
  "n \<le> length xs \<Longrightarrow> place xs (int n) x = take n xs @ x # drop n xs"
  by (simp add: place_def)

lemma js_lt_irrefl: "\<not> js_lt str2num a a"
  by (cases a) (simp_all split: option.split)

lemma addItemSorted_position:
  assumes acc: "ensureItemHasValidId naming c it = Inr it'"
    and len: "length (order c) \<le> MAX_ARRAY_INDEX"
    and val: "searchKey c key it (propOf it ''id'') = getter key it'"
    and cmp: "comparable (getter key it' # map (searchKey c key it) (order c))"
    and srt: "sorted_wrt (js_le str2num) (map (searchKey c key it) (order c))"
  shows "\<exists>n\<le>length (order c).
           addItemSorted str2num naming c it key = addItemAt naming c it (int n) \<and>
           order (snd (addItemSorted str2num naming c it key)) =
             take n (order c) @ propOf it' ''id'' # drop n (order c) \<and>
           (\<forall>x\<in>set (take n (order c)). js_lt str2num (searchKey c key it x) (getter key it')) \<and>
           (\<forall>x\<in>set (drop n (order c)). js_le str2num (getter key it') (searchKey c key it x))"
proof -
  define n where
    "n = sortedIndexLoop (\<lambda>x. js_lt str2num (searchKey c key it x) (getter key it'))
           (order c) 0 (length (order c))"
  have cmp': "comparable (searchKey c key it (propOf it ''id'') #
                          map (searchKey c key it) (order c))"
    using cmp by (simp only: val)
  have e: "addItemSorted str2num naming c it key = addItemAt naming c it (int n)"
    unfolding n_def using addItemSorted_index[OF cmp' len, of str2num naming] by (simp only: val)
  from insertion_point[OF cmp srt]
  have i: "n \<le> length (order c)"
    "\<forall>x\<in>set (take n (order c)). js_lt str2num (searchKey c key it x) (getter key it')"
    "\<forall>x\<in>set (drop n (order c)). js_le str2num (getter key it') (searchKey c key it x)"
    unfolding n_def by blast+
  have o: "order (snd (addItemSorted str2num naming c it key)) =
             take n (order c) @ propOf it' ''id'' # drop n (order c)"
    unfolding e addItemAt_accepted[OF acc] using place_nat[OF i(1)] by simp
  from e o i show ?thesis by blast
qed

text \<open>Evaluating the search on arrays of given length.\<close>

lemma loop_done: "\<not> low < high \<Longrightarrow> sortedIndexLoop P xs low high = high"
  by (simp add: sortedIndexLoop.simps[of P xs low high])

lemma loop_step:
  "low < high \<Longrightarrow> sortedIndexLoop P xs low high =
     (if P (xs ! ((low + high) div 2)) then sortedIndexLoop P xs ((low + high) div 2 + 1) high
      else sortedIndexLoop P xs low ((low + high) div 2))"
  by (simp add: sortedIndexLoop.simps[of P xs low high] Let_def)

lemma tie_index:
  "sortedIndexBy no_numeric_strings (order coll_ab) (propOf item_tie ''id'')
     (keyAt coll_ab (KeyName ''rank'') item_tie) = 1"
  by (simp add: sortedIndexBy_def baseSortedIndexBy_def loop_done loop_step coll_ab_def item_tie_def item_a_def
      item_b_def keyAt_def propOf_def setLowBy_def MAX_ARRAY_INDEX_def)

lemma ab_keys: "orderedKeys (KeyName ''rank'') coll_ab = [JNum 1, JNum 3]"
  by (simp add: orderedKeys_def selectOrdered_def coll_ab_def item_a_def item_b_def propOf_def)

text \<open>
  C2 as stated fails. The collection of \<open>a\<close> (rank 1) and \<open>b\<close> (rank 3) is sorted by rank;
  the item \<open>{id:"c", rank:3}\<close> has the rank of \<open>b\<close>, and \<open>addItemSorted\<close> by \<open>rank\<close> puts \<open>c\<close>
  before \<open>b\<close>, not after it.
\<close>

theorem addItemSorted_tie_goes_first:
  "orderedKeys (KeyName ''rank'') coll_ab = [JNum 1, JNum 3] \<and>
   getter (KeyName ''rank'') item_tie = JNum 3 \<and>
   addItemSorted no_numeric_strings name_as_id coll_ab item_tie (KeyName ''rank'') =
     (None, \<lparr>byId = [''a'' \<mapsto> item_a, ''b'' \<mapsto> item_b, ''c'' \<mapsto> item_tie],
             order = [JStr ''a'', JStr ''c'', JStr ''b'']\<rparr>)"
proof -
  have e: "ensureItemHasValidId name_as_id coll_ab item_tie = Inr item_tie"
    by (simp add: ensureItemHasValidId_def hasValidId_def has_iff propOf_def item_tie_def
        coll_ab_def NEW_ITEM_ID_def)
  have "addItemSorted no_numeric_strings name_as_id coll_ab item_tie (KeyName ''rank'') =
     (None, \<lparr>byId = [''a'' \<mapsto> item_a, ''b'' \<mapsto> item_b, ''c'' \<mapsto> item_tie],
             order = [JStr ''a'', JStr ''c'', JStr ''b'']\<rparr>)"
    unfolding addItemSorted_def
    by (simp add: tie_index addItemAt_accepted[OF e] place_def)
      (simp add: coll_ab_def item_tie_def propOf_def NEW_ITEM_ID_def)
  moreover have "getter (KeyName ''rank'') item_tie = JNum 3"
    by (simp add: item_tie_def propOf_def)
  ultimately show ?thesis using ab_keys by simp
qed

text \<open>
  C2, amended. lodash \<open>sortedIndexBy\<close> returns the lowest insertion point. Let the values
  that the search compares for the identifiers of \<open>order\<close> (\<open>searchKey\<close>: the key of the
  entity behind the identifier, the identifier itself for the key \<open>'id'\<close>) be sorted and,
  together with the key of the new item, all numbers or all strings; let \<open>order\<close> be within
  the bound of lodash's array indices; let identifier resolution accept the item, as
  \<open>it'\<close>, and let the value the search uses for the item be the key of \<open>it'\<close>. Then
  \<open>addItemSorted\<close> puts the new identifier at an index \<open>n\<close> of \<open>order\<close> such that every
  element before it has a key \<open><\<close> the new key (so none of them has an equal key: the new
  identifier comes before all identifiers with an equal key) and every element after it
  has a key \<open>\<ge>\<close> the new key.
\<close>

theorem addItemSorted_inserts_before_equal_keys:
  assumes acc: "ensureItemHasValidId naming c it = Inr it'"
    and len: "length (order c) \<le> MAX_ARRAY_INDEX"
    and val: "searchKey c key it (propOf it ''id'') = getter key it'"
    and cmp: "comparable (getter key it' # map (searchKey c key it) (order c))"
    and srt: "sorted_wrt (js_le str2num) (map (searchKey c key it) (order c))"
  shows "\<exists>n\<le>length (order c).
           order (snd (addItemSorted str2num naming c it key)) =
             take n (order c) @ propOf it' ''id'' # drop n (order c) \<and>
           (\<forall>x\<in>set (take n (order c)).
              js_lt str2num (searchKey c key it x) (getter key it') \<and>
              searchKey c key it x \<noteq> getter key it') \<and>
           (\<forall>x\<in>set (drop n (order c)). js_le str2num (getter key it') (searchKey c key it x))"
proof -
  from addItemSorted_position[OF assms] obtain n where n: "n \<le> length (order c)"
    "order (snd (addItemSorted str2num naming c it key)) =
             take n (order c) @ propOf it' ''id'' # drop n (order c)"
    "\<forall>x\<in>set (take n (order c)). js_lt str2num (searchKey c key it x) (getter key it')"
    "\<forall>x\<in>set (drop n (order c)). js_le str2num (getter key it') (searchKey c key it x)"
    by blast
  from n(3) js_lt_irrefl[of str2num "getter key it'"]
  have "\<forall>x\<in>set (take n (order c)). searchKey c key it x \<noteq> getter key it'"
    by metis
  with n show ?thesis by blast
qed

text \<open>The item \<open>{id:"c", rank:3}\<close> and the collection of \<open>a\<close> and \<open>b\<close>.\<close>

theorem addItemSorted_inserts_before_equal_keys_witness:
  "ensureItemHasValidId name_as_id coll_ab item_tie = Inr item_tie \<and>
   length (order coll_ab) \<le> MAX_ARRAY_INDEX \<and>
   searchKey coll_ab (KeyName ''rank'') item_tie (propOf item_tie ''id'') =
     getter (KeyName ''rank'') item_tie \<and>
   comparable (getter (KeyName ''rank'') item_tie #
               map (searchKey coll_ab (KeyName ''rank'') item_tie) (order coll_ab)) \<and>
   sorted_wrt (js_le no_numeric_strings)
     (map (searchKey coll_ab (KeyName ''rank'') item_tie) (order coll_ab)) \<and>
   (\<exists>n\<le>length (order coll_ab).
      order (snd (addItemSorted no_numeric_strings name_as_id coll_ab item_tie (KeyName ''rank'')))
        = take n (order coll_ab) @ propOf item_tie ''id'' # drop n (order coll_ab) \<and>
      (\<forall>x\<in>set (take n (order coll_ab)).
         js_lt no_numeric_strings (searchKey coll_ab (KeyName ''rank'') item_tie x)
           (getter (KeyName ''rank'') item_tie) \<and>
         searchKey coll_ab (KeyName ''rank'') item_tie x \<noteq> getter (KeyName ''rank'') item_tie) \<and>
      (\<forall>x\<in>set (drop n (order coll_ab)).
         js_le no_numeric_strings (getter (KeyName ''rank'') item_tie)
           (searchKey coll_ab (KeyName ''rank'') item_tie x)))"
proof -
  have acc: "ensureItemHasValidId name_as_id coll_ab item_tie = Inr item_tie"
    by (simp add: ensureItemHasValidId_def hasValidId_def has_iff propOf_def item_tie_def
        coll_ab_def NEW_ITEM_ID_def)
  have len: "length (order coll_ab) \<le> MAX_ARRAY_INDEX"
    by (simp add: coll_ab_def MAX_ARRAY_INDEX_def)
  have val: "searchKey coll_ab (KeyName ''rank'') item_tie (propOf item_tie ''id'') =
               getter (KeyName ''rank'') item_tie"
    by (simp add: searchKey_def keyAt_def coll_ab_def item_tie_def propOf_def)
  have keys: "map (searchKey coll_ab (KeyName ''rank'') item_tie) (order coll_ab) = [JNum 1, JNum 3]"
    by (simp add: searchKey_def keyAt_def coll_ab_def item_a_def item_b_def propOf_def)
  have g: "getter (KeyName ''rank'') item_tie = JNum 3"
    by (simp add: item_tie_def propOf_def)
  have cmp: "comparable (getter (KeyName ''rank'') item_tie #
               map (searchKey coll_ab (KeyName ''rank'') item_tie) (order coll_ab))"
    unfolding keys g by (simp add: comparable_def is_number_def)
  have srt: "sorted_wrt (js_le no_numeric_strings)
     (map (searchKey coll_ab (KeyName ''rank'') item_tie) (order coll_ab))"
    unfolding keys by simp
  from addItemSorted_inserts_before_equal_keys[OF acc len val cmp srt] acc len val cmp srt show ?thesis by blast
qed

subsection \<open>Sortedness after a sorted insertion\<close>

lemma keys_of_map_filter:
  assumes "\<forall>y\<in>set ys. \<forall>e. f y = Some e \<longrightarrow> g e = h y"
  shows "map g (List.map_filter f ys) = map h (filter (\<lambda>y. f y \<noteq> None) ys)"
  using assms by (induction ys) (auto split: option.split)

lemma orderedKeys_filter:
  assumes "\<forall>y\<in>set (order c). \<forall>e. byId c (toKey y) = Some e \<longrightarrow> getter key e = h y"
  shows "orderedKeys key c = map h (filter (\<lambda>y. byId c (toKey y) \<noteq> None) (order c))"
  unfolding orderedKeys_def selectOrdered_def
  using keys_of_map_filter[of "order c" "\<lambda>i. byId c (toKey i)" "getter key" h] assms
  by simp

lemma sorted_map_filter:
  assumes "sorted_wrt (\<lambda>x y. r (h x) (h y)) ys"
  shows "sorted_wrt r (map h (filter q ys))"
  using sorted_wrt_filter[OF assms, of q] by (simp add: sorted_wrt_map)

lemma isIdKey_getter: "isIdKey key \<Longrightarrow> getter key e = propOf e ''id''"
  by (cases key) simp_all

lemma entity_searchKey:
  assumes "byId c (toKey i) = Some e" and "isIdKey key \<longrightarrow> propOf e ''id'' = i"
  shows "getter key e = searchKey c key it i"
  using assms by (simp add: searchKey_def keyAt_def isIdKey_getter)

lemma dangling_index:
  "sortedIndexBy no_numeric_strings (order coll_adb) (propOf item_e ''id'')
     (keyAt coll_adb (KeyName ''rank'') item_e) = 1"
  by (simp add: sortedIndexBy_def baseSortedIndexBy_def loop_done loop_step coll_adb_def
      item_e_def item_a_def item_b_def keyAt_def propOf_def setLowBy_def MAX_ARRAY_INDEX_def)

text \<open>
  C5 as stated fails. In the collection with \<open>order = ["a","d","b"]\<close>, where \<open>d\<close> is the
  identifier of no entity, \<open>selectOrdered\<close> gives \<open>a\<close> (rank 1), \<open>b\<close> (rank 3): sorted by rank.
  For \<open>d\<close> the search compares the key of the incoming item \<open>{id:"e", rank:5}\<close> with
  itself, turns left, and \<open>e\<close> lands at index 1: \<open>selectOrdered\<close> then gives the ranks 1, 5, 3.
\<close>

theorem addItemSorted_dangling_breaks_sortedness:
  "orderedKeys (KeyName ''rank'') coll_adb = [JNum 1, JNum 3] \<and>
   sorted_wrt (js_le no_numeric_strings) (orderedKeys (KeyName ''rank'') coll_adb) \<and>
   addItemSorted no_numeric_strings name_as_id coll_adb item_e (KeyName ''rank'') =
     (None, \<lparr>byId = [''a'' \<mapsto> item_a, ''b'' \<mapsto> item_b, ''e'' \<mapsto> item_e],
             order = [JStr ''a'', JStr ''e'', JStr ''d'', JStr ''b'']\<rparr>) \<and>
   orderedKeys (KeyName ''rank'')
     (snd (addItemSorted no_numeric_strings name_as_id coll_adb item_e (KeyName ''rank'')))
     = [JNum 1, JNum 5, JNum 3] \<and>
   \<not> sorted_wrt (js_le no_numeric_strings)
     (orderedKeys (KeyName ''rank'')
        (snd (addItemSorted no_numeric_strings name_as_id coll_adb item_e (KeyName ''rank''))))"
proof -
  have k: "orderedKeys (KeyName ''rank'') coll_adb = [JNum 1, JNum 3]"
    by (simp add: orderedKeys_def selectOrdered_def coll_adb_def item_a_def item_b_def propOf_def)
  have e: "ensureItemHasValidId name_as_id coll_adb item_e = Inr item_e"
    by (simp add: ensureItemHasValidId_def hasValidId_def has_iff propOf_def item_e_def
        coll_adb_def NEW_ITEM_ID_def)
  have r: "addItemSorted no_numeric_strings name_as_id coll_adb item_e (KeyName ''rank'') =
     (None, \<lparr>byId = [''a'' \<mapsto> item_a, ''b'' \<mapsto> item_b, ''e'' \<mapsto> item_e],
             order = [JStr ''a'', JStr ''e'', JStr ''d'', JStr ''b'']\<rparr>)"
    unfolding addItemSorted_def
    by (simp add: dangling_index addItemAt_accepted[OF e] place_def)
      (simp add: coll_adb_def item_e_def propOf_def NEW_ITEM_ID_def)
  have k': "orderedKeys (KeyName ''rank'')
     (snd (addItemSorted no_numeric_strings name_as_id coll_adb item_e (KeyName ''rank'')))
     = [JNum 1, JNum 5, JNum 3]"
    unfolding r
    by (simp add: orderedKeys_def selectOrdered_def item_a_def item_b_def item_e_def propOf_def)
  show ?thesis unfolding k' k using r by simp
qed

text \<open>
  C5, amended. Let every identifier of \<open>order\<close> have an entity in \<open>byId\<close> (whose \<open>id\<close> is
  that identifier, when the key is \<open>'id'\<close>); let the keys of the sequence of
  \<open>selectOrdered\<close> be sorted and, together with the key of the new item, all numbers or all
  strings; let \<open>order\<close> be within the bound of lodash's array indices; let identifier
  resolution accept the item, as \<open>it'\<close>, with an identifier that is not yet a key of \<open>byId\<close>,
  and let the value the search uses for the item be the key of \<open>it'\<close>. Then the keys of the
  sequence of \<open>selectOrdered\<close> are sorted after \<open>addItemSorted\<close>. The statement is silent
  about an item for which the search uses another value than its key: an item without
  identifier under the key \<open>'id'\<close>, or the promotion of a draft whose entry in \<open>byId\<close> has
  another key than the item.
\<close>

theorem addItemSorted_keeps_sorted:
  assumes acc: "ensureItemHasValidId naming c it = Inr it'"
    and fresh: "byId c (toKey (propOf it' ''id'')) = None"
    and len: "length (order c) \<le> MAX_ARRAY_INDEX"
    and ents: "\<forall>i\<in>set (order c). \<exists>e. byId c (toKey i) = Some e \<and>
                 (isIdKey key \<longrightarrow> propOf e ''id'' = i)"
    and val: "searchKey c key it (propOf it ''id'') = getter key it'"
    and cmp: "comparable (getter key it' # orderedKeys key c)"
    and srt: "sorted_wrt (js_le str2num) (orderedKeys key c)"
  shows "sorted_wrt (js_le str2num) (orderedKeys key (snd (addItemSorted str2num naming c it key)))"
proof -
  let ?sk = "searchKey c key it"
  let ?ord = "order c"
  let ?v = "getter key it'"
  let ?new = "propOf it' ''id''"
  let ?c' = "snd (addItemSorted str2num naming c it key)"
  \<comment> \<open>before the insertion, the keys of the materialized sequence are the search keys\<close>
  have all: "filter (\<lambda>y. byId c (toKey y) \<noteq> None) ?ord = ?ord"
    using ents by (simp add: filter_id_conv) blast
  have "\<forall>y\<in>set ?ord. \<forall>e. byId c (toKey y) = Some e \<longrightarrow> getter key e = ?sk y"
    using ents entity_searchKey by fastforce
  from orderedKeys_filter[OF this] have keys: "orderedKeys key c = map ?sk ?ord"
    by (simp only: all)
  from cmp srt have cmp': "comparable (?v # map ?sk ?ord)"
    and srt': "sorted_wrt (js_le str2num) (map ?sk ?ord)"
    by (simp_all only: keys)
  \<comment> \<open>the position of the new identifier\<close>
  from addItemSorted_position[OF acc len val cmp' srt'] obtain n where n:
    "n \<le> length ?ord"
    "addItemSorted str2num naming c it key = addItemAt naming c it (int n)"
    "order ?c' = take n ?ord @ ?new # drop n ?ord"
    "\<forall>x\<in>set (take n ?ord). js_lt str2num (?sk x) ?v"
    "\<forall>x\<in>set (drop n ?ord). js_le str2num ?v (?sk x)"
    by blast
  \<comment> \<open>the new identifier is not in the old order, and old entities are the old ones\<close>
  have notin: "\<forall>x\<in>set ?ord. toKey x \<noteq> toKey ?new"
    using ents fresh by fastforce
  have byId': "byId ?c' k = Some e \<Longrightarrow> k \<noteq> toKey ?new \<Longrightarrow> byId c k = Some e" for k e
    unfolding n(2) addItemAt_accepted[OF acc] by (simp split: if_splits)
  have new': "byId ?c' (toKey ?new) = Some e \<Longrightarrow> e = it'" for e
    unfolding n(2) addItemAt_accepted[OF acc] by (simp split: if_splits)
  define h where "h = (\<lambda>y. if y = ?new then ?v else ?sk y)"
  have hold: "h x = ?sk x" if "x \<in> set ?ord" for x
    using that notin by (auto simp: h_def)
  have "\<forall>y\<in>set (order ?c'). \<forall>e. byId ?c' (toKey y) = Some e \<longrightarrow> getter key e = h y"
  proof (intro ballI allI impI)
    fix y e assume y: "y \<in> set (order ?c')" and e: "byId ?c' (toKey y) = Some e"
    show "getter key e = h y"
    proof (cases "y = ?new")
      case True
      with e new' show ?thesis by (simp add: h_def)
    next
      case False
      with y n(3) have yo: "y \<in> set ?ord"
        by (auto dest: in_set_takeD in_set_dropD)
      with notin have "toKey y \<noteq> toKey ?new" by blast
      from byId'[OF e this] have "byId c (toKey y) = Some e" .
      moreover from ents yo obtain e' where "byId c (toKey y) = Some e'"
        "isIdKey key \<longrightarrow> propOf e' ''id'' = y" by blast
      ultimately have "getter key e = ?sk y" using entity_searchKey by fastforce
      with hold[OF yo] show ?thesis by simp
    qed
  qed
  from orderedKeys_filter[OF this]
  have keys': "orderedKeys key ?c' =
                 map h (filter (\<lambda>y. byId ?c' (toKey y) \<noteq> None) (order ?c'))" .
  \<comment> \<open>the new order is sorted under the search keys\<close>
  let ?R = "\<lambda>x y. js_le str2num (h x) (h y)"
  let ?A = "take n ?ord" and ?B = "drop n ?ord"
  have AB: "?A @ ?B = ?ord" by simp
  have sub: "set ?A \<subseteq> set ?ord" "set ?B \<subseteq> set ?ord"
    by (auto dest: in_set_takeD in_set_dropD)
  have "sorted_wrt (\<lambda>x y. js_le str2num (?sk x) (?sk y)) ?ord"
    using srt' by (simp add: sorted_wrt_map)
  then have "sorted_wrt ?R ?ord"
    by (rule sorted_wrt_mono_rel[rotated]) (simp add: hold)
  then have sAB: "sorted_wrt ?R (?A @ ?B)" by (simp only: AB)
  have mem: "?sk x \<in> set (?v # map ?sk ?ord)" if "x \<in> set ?ord" for x
    using that by simp
  have vmem: "?v \<in> set (?v # map ?sk ?ord)" by simp
  have hv: "h ?new = ?v" by (simp add: h_def)
  have lo: "\<forall>x\<in>set ?A. ?R x ?new"
  proof
    fix x assume x: "x \<in> set ?A"
    then have xo: "x \<in> set ?ord" using sub by blast
    from n(4) x have "js_lt str2num (?sk x) ?v" by blast
    from comparable_lt_le[OF cmp' mem[OF xo] vmem this] show "?R x ?new"
      by (simp add: hv hold[OF xo])
  qed
  have hi: "\<forall>x\<in>set ?B. ?R ?new x"
  proof
    fix x assume x: "x \<in> set ?B"
    then have xo: "x \<in> set ?ord" using sub by blast
    from n(5) x show "?R ?new x" by (simp add: hv hold[OF xo])
  qed
  from sAB have parts: "sorted_wrt ?R ?A" "sorted_wrt ?R ?B" "\<forall>x\<in>set ?A. \<forall>y\<in>set ?B. ?R x y"
    unfolding sorted_wrt_append by blast+
  with lo hi have "sorted_wrt ?R (?A @ ?new # ?B)"
    unfolding sorted_wrt_append by simp
  then have "sorted_wrt ?R (order ?c')" by (simp only: n(3))
  from sorted_map_filter[where r = "js_le str2num" and h = h, OF this]
  show ?thesis by (simp only: keys')
qed

lemma scenario_index:
  "sortedIndexBy no_numeric_strings (order coll_ab) (propOf item_c ''id'')
     (keyAt coll_ab (KeyName ''rank'') item_c) = 1"
  by (simp add: sortedIndexBy_def baseSortedIndexBy_def loop_done loop_step coll_ab_def
      item_c_def item_a_def item_b_def keyAt_def propOf_def setLowBy_def MAX_ARRAY_INDEX_def)

text \<open>
  The scenario of the specification: \<open>{name:"c", rank:2}\<close> inserted by \<open>rank\<close> into the
  collection of \<open>a\<close> (rank 1) and \<open>b\<close> (rank 3) gives \<open>order = ["a","c","b"]\<close>, the naming
  function deriving the identifier \<open>c\<close> from the name \<open>c\<close>.
\<close>

theorem addItemSorted_keeps_sorted_witness:
  "ensureItemHasValidId name_as_id coll_ab item_c = Inr (item_c(''id'' \<mapsto> JStr ''c'')) \<and>
   byId coll_ab (toKey (propOf (item_c(''id'' \<mapsto> JStr ''c'')) ''id'')) = None \<and>
   length (order coll_ab) \<le> MAX_ARRAY_INDEX \<and>
   byId coll_ab (toKey (JStr ''a'')) = Some item_a \<and>
   byId coll_ab (toKey (JStr ''b'')) = Some item_b \<and>
   \<not> isIdKey (KeyName ''rank'') \<and>
   searchKey coll_ab (KeyName ''rank'') item_c (propOf item_c ''id'') =
     getter (KeyName ''rank'') (item_c(''id'' \<mapsto> JStr ''c'')) \<and>
   comparable (getter (KeyName ''rank'') (item_c(''id'' \<mapsto> JStr ''c'')) #
               orderedKeys (KeyName ''rank'') coll_ab) \<and>
   sorted_wrt (js_le no_numeric_strings) (orderedKeys (KeyName ''rank'') coll_ab) \<and>
   sorted_wrt (js_le no_numeric_strings)
     (orderedKeys (KeyName ''rank'')
        (snd (addItemSorted no_numeric_strings name_as_id coll_ab item_c (KeyName ''rank'')))) \<and>
   order (snd (addItemSorted no_numeric_strings name_as_id coll_ab item_c (KeyName ''rank'')))
     = [JStr ''a'', JStr ''c'', JStr ''b'']"
proof -
  have acc: "ensureItemHasValidId name_as_id coll_ab item_c = Inr (item_c(''id'' \<mapsto> JStr ''c''))"
    by (simp add: ensureItemHasValidId_def hasValidId_def propOf_def item_c_def name_as_id_def)
  have fresh: "byId coll_ab (toKey (propOf (item_c(''id'' \<mapsto> JStr ''c'')) ''id'')) = None"
    by (simp add: propOf_def coll_ab_def)
  have len: "length (order coll_ab) \<le> MAX_ARRAY_INDEX"
    by (simp add: coll_ab_def MAX_ARRAY_INDEX_def)
  have a: "byId coll_ab (toKey (JStr ''a'')) = Some item_a"
    and b: "byId coll_ab (toKey (JStr ''b'')) = Some item_b"
    by (simp_all add: coll_ab_def)
  have nid: "\<not> isIdKey (KeyName ''rank'')" by simp
  have ents: "\<forall>i\<in>set (order coll_ab). \<exists>e. byId coll_ab (toKey i) = Some e \<and>
                 (isIdKey (KeyName ''rank'') \<longrightarrow> propOf e ''id'' = i)"
    by (simp add: coll_ab_def)
  have val: "searchKey coll_ab (KeyName ''rank'') item_c (propOf item_c ''id'') =
     getter (KeyName ''rank'') (item_c(''id'' \<mapsto> JStr ''c''))"
    by (simp add: searchKey_def keyAt_def coll_ab_def item_c_def propOf_def)
  have g: "getter (KeyName ''rank'') (item_c(''id'' \<mapsto> JStr ''c'')) = JNum 2"
    by (simp add: item_c_def propOf_def)
  have cmp: "comparable (getter (KeyName ''rank'') (item_c(''id'' \<mapsto> JStr ''c'')) #
               orderedKeys (KeyName ''rank'') coll_ab)"
    unfolding g ab_keys by (simp add: comparable_def is_number_def)
  have srt: "sorted_wrt (js_le no_numeric_strings) (orderedKeys (KeyName ''rank'') coll_ab)"
    unfolding ab_keys by simp
  have ord: "order (snd (addItemSorted no_numeric_strings name_as_id coll_ab item_c (KeyName ''rank'')))
     = [JStr ''a'', JStr ''c'', JStr ''b'']"
    unfolding addItemSorted_def
    by (simp add: scenario_index addItemAt_accepted[OF acc] place_def)
      (simp add: coll_ab_def propOf_def)
  from addItemSorted_keeps_sorted[OF acc fresh len ents val cmp srt] acc fresh len a b nid val cmp srt ord
  show ?thesis by blast
qed

subsection \<open>Items that the search does not place by their own key\<close>

text \<open>
  The search of \<open>addItemSorted\<close> looks the item up by its \<open>id\<close>. For the promotion of a draft
  the \<open>id\<close> is the draft marker, the entry of \<open>byId\<close> under it is the draft, and the search
  runs with the key of the draft: \<open>{id: draft marker, name:"c", rank:2}\<close> lands behind
  \<open>b\<close> (rank 3), because the draft \<open>{id: draft marker}\<close> has no rank.
\<close>

lemma promotion_placed_by_draft_key:
  "addItemSorted no_numeric_strings name_as_id (fst (createNewItemInFrontOf coll_ab NoStore))
     (item_c(''id'' \<mapsto> JStr NEW_ITEM_ID)) (KeyName ''rank'') =
   (None, \<lparr>byId = [''a'' \<mapsto> item_a, ''b'' \<mapsto> item_b, ''c'' \<mapsto> item_c(''id'' \<mapsto> JStr ''c'')],
           order = [JStr ''a'', JStr ''b'', JStr ''c'']\<rparr>)"
proof -
  let ?c1 = "fst (createNewItemInFrontOf coll_ab NoStore)"
  let ?it = "item_c(''id'' \<mapsto> JStr NEW_ITEM_ID)"
  have i: "sortedIndexBy no_numeric_strings (order ?c1) (propOf ?it ''id'')
             (keyAt ?c1 (KeyName ''rank'') ?it) = 2"
    by (simp add: sortedIndexBy_def baseSortedIndexBy_def loop_done loop_step
        createNewItemInFrontOf_def coll_ab_def item_c_def item_a_def item_b_def keyAt_def
        propOf_def setLowBy_def MAX_ARRAY_INDEX_def NEW_ITEM_ID_def)
  have e: "ensureItemHasValidId name_as_id ?c1 ?it = Inr (?it(''id'' \<mapsto> JStr ''c''))"
    by (simp add: ensureItemHasValidId_def hasValidId_def propOf_def item_c_def name_as_id_def)
  show ?thesis
    unfolding addItemSorted_def
    by (simp add: i addItemAt_accepted[OF e] place_def)
      (simp add: createNewItemInFrontOf_def coll_ab_def propOf_def NEW_ITEM_ID_def fun_upd_twist)
qed

text \<open>
  Under the default key \<open>'id'\<close> the search runs with the \<open>id\<close> of the item as it comes in.
  An item without \<open>id\<close> is searched as \<open>undefined\<close> and appended at the back, whatever
  identifier its name gives it afterwards.
\<close>

lemma item_without_id_appended_under_id_key:
  "addItemSorted no_numeric_strings name_as_id coll_ab [''name'' \<mapsto> JStr ''aa''] (KeyName ''id'') =
   (None, \<lparr>byId = [''a'' \<mapsto> item_a, ''b'' \<mapsto> item_b,
                    ''aa'' \<mapsto> [''name'' \<mapsto> JStr ''aa'', ''id'' \<mapsto> JStr ''aa'']],
           order = [JStr ''a'', JStr ''b'', JStr ''aa'']\<rparr>)"
proof -
  let ?it = "[''name'' \<mapsto> JStr ''aa'']"
  have i: "sortedIndex no_numeric_strings (order coll_ab) (propOf ?it ''id'') = 2"
    by (simp add: sortedIndex_def is_number_def baseSortedIndexBy_def loop_done loop_step
        coll_ab_def propOf_def setLowBy_def MAX_ARRAY_INDEX_def)
  have e: "ensureItemHasValidId name_as_id coll_ab ?it = Inr (?it(''id'' \<mapsto> JStr ''aa''))"
    by (simp add: ensureItemHasValidId_def hasValidId_def propOf_def name_as_id_def)
  show ?thesis
    unfolding addItemSorted_def
    by (simp add: i addItemAt_accepted[OF e] place_def)
      (simp add: coll_ab_def propOf_def)
qed

end
